theory Spec2Isabelle
  imports Main
begin

section \<open>misc::repeater: a periodic trigger with interrupt and stop\<close>

text \<open>
  The header \<^verbatim>\<open>src/misc/repeater.h\<close> declares the handle class \<^verbatim>\<open>repeater\<close> and
  the functor \<^verbatim>\<open>details::repeater_functor\<close> that the handle's thread runs.  Two
  threads share two atomic flags and a condition variable.  The model is an
  interleaving one: the worker's \<^verbatim>\<open>operator()\<close> is cut at its atomic loads and
  stores into steps, and an execution is a list of worker steps, calls of the
  owning thread and passages of time.
\<close>

subsection \<open>State\<close>

text \<open>
  Where the worker thread stands inside \<^verbatim>\<open>repeater_functor::operator()\<close>:
  \<^item> \<open>AtWhile\<close>: before the load of the loop condition (line 104);
  \<^item> \<open>AtWait\<close>: inside \<^verbatim>\<open>cv_ptr->wait_for(lock, interval, pred)\<close> (line 108);
  \<^item> \<open>AtCheck\<close>: before the load of \<^verbatim>\<open>is_running_ptr\<close> after the wait (line 113);
  \<^item> \<open>AtDecide\<close>: before the test that guards \<^verbatim>\<open>fn()\<close> (line 116);
  \<^item> \<open>AtReset\<close>: before \<^verbatim>\<open>is_interrupted_ptr->store(false)\<close> (line 122);
  \<^item> \<open>Returned\<close>: the loop has been left and \<^verbatim>\<open>operator()\<close> has returned.
\<close>

datatype label = AtWhile | AtWait | AtCheck | AtDecide | AtReset | Returned

text \<open>
  The shared objects, the members of the functor, the worker's position and
  local variable, the handle's thread member, and the surroundings.
  \<^item> \<open>is_running_ptr\<close>, \<open>is_interrupted_ptr\<close>: the values of the two
    \<^verbatim>\<open>atomic_bool\<close>s that the handle and the functor both point to;
  \<^item> \<open>cv_ptr\<close>: the number of \<^verbatim>\<open>notify_one()\<close> calls made on the shared
    condition variable;
  \<^item> \<open>interval\<close> (in clock ticks), \<open>execute_if_interrupted\<close>, \<open>fn\<close>: the
    functor's own members; the callback acts on an environment of type \<open>'e\<close>;
  \<^item> \<open>pc\<close>: the worker's position; \<open>is_interrupted\<close>: the local constant that
    receives the result of \<^verbatim>\<open>wait_for\<close>; \<open>deadline\<close>: the time at which the
    wait in progress times out;
  \<^item> \<open>joinable\<close>: \<^verbatim>\<open>t.joinable()\<close>;
  \<^item> \<open>now\<close>: the clock; \<open>env\<close>: what the callback acts on;
  \<^item> \<open>calls\<close>, \<open>wakes\<close>: instrumentation only, the number of invocations of
    \<^verbatim>\<open>fn()\<close> and the number of returns of \<^verbatim>\<open>wait_for\<close> so far.
  The mutex \<^verbatim>\<open>m\<close> is local to the worker and never contended, so it is left out.
\<close>

record 'e world =
  is_running_ptr :: bool
  is_interrupted_ptr :: bool
  cv_ptr :: nat
  interval :: int
  execute_if_interrupted :: bool
  fn :: "'e \<Rightarrow> 'e"
  pc :: label
  is_interrupted :: bool
  deadline :: int
  joinable :: bool
  now :: int
  env :: 'e
  calls :: nat
  wakes :: nat

subsection \<open>The handle's operations\<close>

text \<open>
  \<^verbatim>\<open>repeater::repeater(interval, execute_if_interrupted, fn)\<close> (lines 128-145):
  \<^verbatim>\<open>make_shared<atomic_bool>(true)\<close>, \<^verbatim>\<open>make_shared<atomic_bool>(false)\<close>, a fresh
  condition variable, and a thread that is about to run the functor.  The
  clock starts at the construction; \<open>e\<close> is the environment the callback finds.
\<close>

definition repeater :: "int \<Rightarrow> bool \<Rightarrow> ('e \<Rightarrow> 'e) \<Rightarrow> 'e \<Rightarrow> 'e world" where
  "repeater iv eii f e =
     \<lparr> is_running_ptr = True, is_interrupted_ptr = False, cv_ptr = 0,
       interval = iv, execute_if_interrupted = eii, fn = f,
       pc = AtWhile, is_interrupted = False, deadline = 0,
       joinable = True, now = 0, env = e, calls = 0, wakes = 0 \<rparr>"

text \<open>\<^verbatim>\<open>repeater::interrupt()\<close> (lines 164-168).\<close>

definition interrupt :: "'e world \<Rightarrow> 'e world" where
  "interrupt w = w\<lparr> is_interrupted_ptr := True, cv_ptr := Suc (cv_ptr w) \<rparr>"

text \<open>\<^verbatim>\<open>repeater::stop()\<close> (lines 170-175).\<close>

definition stop :: "'e world \<Rightarrow> 'e world" where
  "stop w = w\<lparr> is_running_ptr := False, is_interrupted_ptr := True,
               cv_ptr := Suc (cv_ptr w) \<rparr>"

subsection \<open>The worker\<close>

text \<open>
  \<^verbatim>\<open>wait_for(lock, interval, pred)\<close> returns the last value of the predicate, a
  load of \<^verbatim>\<open>is_interrupted_ptr\<close>: \<open>Some True\<close> as soon as the flag is set,
  \<open>Some False\<close> when the deadline has passed with the flag still clear, and it
  keeps blocking (\<open>None\<close>) otherwise.  Notifications and spurious wake-ups only
  make the wait evaluate the predicate again.
\<close>

definition wait_for :: "'e world \<Rightarrow> bool option" where
  "wait_for w =
     (if is_interrupted_ptr w then Some True
      else if deadline w \<le> now w then Some False
      else None)"

text \<open>
  One atomic step of \<^verbatim>\<open>repeater_functor::operator()\<close> (lines 100-125).  The
  step at the loop test that finds the flag set also takes the lock and enters
  \<^verbatim>\<open>wait_for\<close>, which fixes the deadline; the predicate is first evaluated by
  the next step.  The callback runs within the step at \<open>AtDecide\<close>; it acts on
  \<open>env\<close> and is taken to return and to leave the repeater alone.
\<close>

definition worker_step :: "'e world \<Rightarrow> 'e world" where
  "worker_step w =
     (case pc w of
        AtWhile \<Rightarrow>
          (if is_running_ptr w
           then w\<lparr> pc := AtWait, deadline := now w + interval w \<rparr>
           else w\<lparr> pc := Returned \<rparr>)
      | AtWait \<Rightarrow>
          (case wait_for w of
             None \<Rightarrow> w
           | Some r \<Rightarrow> w\<lparr> pc := AtCheck, is_interrupted := r, wakes := Suc (wakes w) \<rparr>)
      | AtCheck \<Rightarrow>
          (if is_running_ptr w then w\<lparr> pc := AtDecide \<rparr> else w\<lparr> pc := AtWhile \<rparr>)
      | AtDecide \<Rightarrow>
          (if \<not> is_interrupted w \<or> execute_if_interrupted w
           then w\<lparr> pc := AtReset, env := fn w (env w), calls := Suc (calls w) \<rparr>
           else w\<lparr> pc := AtReset \<rparr>)
      | AtReset \<Rightarrow> w\<lparr> pc := AtWhile, is_interrupted_ptr := False \<rparr>
      | Returned \<Rightarrow> w)"

subsection \<open>Executions\<close>

text \<open>
  What can happen next: a step of the worker, a call of \<^verbatim>\<open>interrupt()\<close> or
  \<^verbatim>\<open>stop()\<close> by the owning thread, or the clock advancing.
\<close>

datatype action = Worker | Interrupt | Stop | Elapse nat

fun perform :: "action \<Rightarrow> 'e world \<Rightarrow> 'e world" where
  "perform Worker w = worker_step w"
| "perform Interrupt w = interrupt w"
| "perform Stop w = stop w"
| "perform (Elapse d) w = w\<lparr> now := now w + int d \<rparr>"

fun exec :: "action list \<Rightarrow> 'e world \<Rightarrow> 'e world" where
  "exec [] w = w"
| "exec (a # as) w = exec as (perform a w)"

text \<open>
  The worker has taken a wake (\<^verbatim>\<open>wait_for\<close> has returned) and has not yet
  reached the test that guards \<^verbatim>\<open>fn()\<close> for it.
\<close>

definition pending :: "'e world \<Rightarrow> nat" where
  "pending w = (if pc w = AtCheck \<or> pc w = AtDecide then 1 else 0)"

text \<open>A stretch of an execution in which the worker does not move.\<close>

definition owner_only :: "action list \<Rightarrow> bool" where
  "owner_only as = (Worker \<notin> set as)"

subsection \<open>Destruction\<close>

text \<open>
  While the owning thread is blocked in \<^verbatim>\<open>t.join()\<close> only the worker runs and
  time passes: a wait that blocks ends at its deadline.
\<close>

definition timeout :: "'e world \<Rightarrow> 'e world" where
  "timeout w =
     (if pc w = AtWait \<and> wait_for w = None then w\<lparr> now := deadline w \<rparr> else w)"

definition alone_step :: "'e world \<Rightarrow> 'e world" where
  "alone_step w = worker_step (timeout w)"

text \<open>
  The worker running alone until \<^verbatim>\<open>operator()\<close> returns; \<open>None\<close> when it never
  does.
\<close>

partial_function (option) worker_exit :: "'e world \<Rightarrow> 'e world option" where
  "worker_exit w =
     (if pc w = Returned then Some w else worker_exit (alone_step w))"

text \<open>
  How a computation ends: it returns, it throws an exception, or it calls
  \<^verbatim>\<open>std::terminate\<close>, which ends the process.  Each carries the state reached.
\<close>

datatype error = System_error int

datatype 'a outcome = Returns 'a | Throws error 'a | Terminates 'a

text \<open>
  \<^verbatim>\<open>std::thread::join\<close> reports failure by throwing \<^verbatim>\<open>std::system_error\<close> (for
  one, \<^verbatim>\<open>resource_deadlock_would_occur\<close> when the thread joins itself); whether
  it does is decided by the surroundings and given as \<open>fault\<close>.  Otherwise it
  blocks until the worker has returned, and the thread is no longer joinable.
\<close>

definition join :: "error option \<Rightarrow> 'e world \<Rightarrow> 'e world outcome option" where
  "join fault w =
     (case fault of
        Some e \<Rightarrow> Some (Throws e w)
      | None \<Rightarrow>
          (case worker_exit w of
             None \<Rightarrow> None
           | Some w' \<Rightarrow> Some (Returns (w'\<lparr> joinable := False \<rparr>))))"

text \<open>
  The \<^verbatim>\<open>try\<close> block of \<^verbatim>\<open>repeater::~repeater()\<close> (lines 151-156).  \<^verbatim>\<open>stop()\<close>
  consists of two atomic stores and a \<^verbatim>\<open>notify_one()\<close>, none of which throws.
\<close>

definition try_block :: "error option \<Rightarrow> 'e world \<Rightarrow> 'e world outcome option" where
  "try_block fault w =
     (let w1 = stop w
      in if joinable w1 then join fault w1 else Some (Returns w1))"

text \<open>
  The body of \<^verbatim>\<open>repeater::~repeater()\<close> (lines 148-162): the handler
  \<^verbatim>\<open>catch (...) { }\<close> ends every exception of the \<^verbatim>\<open>try\<close> block, and the body
  returns in the state reached at the throw.
\<close>

definition destructor_body :: "error option \<Rightarrow> 'e world \<Rightarrow> 'e world outcome option" where
  "destructor_body fault w =
     (case try_block fault w of
        None \<Rightarrow> None
      | Some (Returns w') \<Rightarrow> Some (Returns w')
      | Some (Throws e w') \<Rightarrow> Some (Returns w')
      | Some (Terminates w') \<Rightarrow> Some (Terminates w'))"

text \<open>
  \<^verbatim>\<open>std::thread::~thread()\<close> of the member \<^verbatim>\<open>t\<close> (line 46): a thread that is
  still joinable when it is destroyed makes the process terminate.
\<close>

definition thread_destructor :: "'e world \<Rightarrow> 'e world outcome" where
  "thread_destructor w = (if joinable w then Terminates w else Returns w)"

text \<open>
  The destruction of a \<^verbatim>\<open>repeater\<close>: the body of \<^verbatim>\<open>~repeater()\<close>, and after it
  the destructors of the members, of which that of \<^verbatim>\<open>t\<close> is the first and the
  only one that acts on this state (the three \<^verbatim>\<open>shared_ptr\<close>s give up their
  share of objects that the functor keeps alive).
\<close>

definition destructor :: "error option \<Rightarrow> 'e world \<Rightarrow> 'e world outcome option" where
  "destructor fault w =
     (case destructor_body fault w of
        None \<Rightarrow> None
      | Some (Returns w') \<Rightarrow> Some (thread_destructor w')
      | Some (Throws e w') \<Rightarrow> Some (Throws e w')
      | Some (Terminates w') \<Rightarrow> Some (Terminates w'))"

text \<open>
  The life of a handle: atomic actions and destruction.  A run ends when its
  events are used up, or earlier with a destructor that does not return
  (\<open>None\<close>), that lets an exception escape, or that ends the process: nothing
  happens after that.
\<close>

datatype event = Act action | Destroy "error option"

fun run :: "event list \<Rightarrow> 'e world \<Rightarrow> 'e world outcome option" where
  "run [] w = Some (Returns w)"
| "run (Act a # es) w = run es (perform a w)"
| "run (Destroy fault # es) w =
     (case destructor fault w of
        None \<Rightarrow> None
      | Some (Returns w') \<Rightarrow> run es w'
      | Some (Throws e w') \<Rightarrow> Some (Throws e w')
      | Some (Terminates w') \<Rightarrow> Some (Terminates w'))"

section \<open>Properties\<close>

subsection \<open>Steps and executions\<close>

lemmas step_defs = worker_step_def wait_for_def
lemmas owner_defs = interrupt_def stop_def
lemmas eval_defs = repeater_def interrupt_def stop_def worker_step_def wait_for_def owner_only_def

lemma exec_append: "exec (as @ bs) w = exec bs (exec as w)"
  by (induction as arbitrary: w) simp_all

lemma worker_step_running: "is_running_ptr (worker_step w) = is_running_ptr w"
  by (cases "pc w") (simp_all add: step_defs split: option.splits)

lemma worker_step_frame:
  "interval (worker_step w) = interval w"
  "execute_if_interrupted (worker_step w) = execute_if_interrupted w"
  "fn (worker_step w) = fn w"
  "cv_ptr (worker_step w) = cv_ptr w"
  "joinable (worker_step w) = joinable w"
  "now (worker_step w) = now w"
  by (cases "pc w"; simp add: step_defs split: option.splits)+

lemma perform_running: "\<not> is_running_ptr w \<Longrightarrow> \<not> is_running_ptr (perform a w)"
  by (cases a) (simp_all add: worker_step_running owner_defs)

lemma exec_running: "\<not> is_running_ptr w \<Longrightarrow> \<not> is_running_ptr (exec as w)"
  by (induction as arbitrary: w) (simp_all add: perform_running)

lemma perform_owner:
  assumes "a \<noteq> Worker"
  shows "pc (perform a w) = pc w" "is_interrupted (perform a w) = is_interrupted w"
    "calls (perform a w) = calls w" "env (perform a w) = env w"
    "wakes (perform a w) = wakes w"
    "execute_if_interrupted (perform a w) = execute_if_interrupted w"
    "fn (perform a w) = fn w" "interval (perform a w) = interval w"
  using assms by (cases a; simp add: owner_defs)+

lemma exec_owner_only:
  assumes "owner_only as"
  shows "pc (exec as w) = pc w \<and> is_interrupted (exec as w) = is_interrupted w \<and>
    calls (exec as w) = calls w \<and> env (exec as w) = env w \<and>
    wakes (exec as w) = wakes w \<and>
    execute_if_interrupted (exec as w) = execute_if_interrupted w \<and>
    fn (exec as w) = fn w \<and> interval (exec as w) = interval w"
  using assms
proof (induction as arbitrary: w)
  case Nil
  then show ?case by simp
next
  case (Cons a as)
  then have "a \<noteq> Worker" and "owner_only as"
    by (auto simp: owner_only_def)
  with Cons.IH [of "perform a w"] show ?case
    by (simp add: perform_owner)
qed

lemma timeout_frame:
  "pc (timeout w) = pc w" "is_running_ptr (timeout w) = is_running_ptr w"
  "is_interrupted_ptr (timeout w) = is_interrupted_ptr w"
  "calls (timeout w) = calls w" "wakes (timeout w) = wakes w" "env (timeout w) = env w"
  "is_interrupted (timeout w) = is_interrupted w"
  "execute_if_interrupted (timeout w) = execute_if_interrupted w"
  "fn (timeout w) = fn w" "interval (timeout w) = interval w"
  "cv_ptr (timeout w) = cv_ptr w" "joinable (timeout w) = joinable w"
  by (simp_all add: timeout_def)

lemma alone_step_Returned: "pc w = Returned \<Longrightarrow> alone_step w = w"
  by (simp add: alone_step_def timeout_def worker_step_def)

lemma funpow_alone_Returned: "pc w = Returned \<Longrightarrow> (alone_step ^^ n) w = w"
  by (induction n) (simp_all add: alone_step_Returned)

lemma worker_exit_fuel:
  "pc ((alone_step ^^ n) w) = Returned \<Longrightarrow> worker_exit w = Some ((alone_step ^^ n) w)"
proof (induction n arbitrary: w)
  case 0
  then show ?case by (simp add: worker_exit.simps)
next
  case (Suc n)
  show ?case
  proof (cases "pc w = Returned")
    case True
    then show ?thesis
      by (simp add: worker_exit.simps funpow_alone_Returned del: funpow.simps)
  next
    case False
    from Suc.prems have "pc ((alone_step ^^ n) (alone_step w)) = Returned"
      by (simp add: funpow_swap1)
    from Suc.IH [OF this] False show ?thesis
      by (subst worker_exit.simps) (simp add: funpow_swap1)
  qed
qed

lemma alone_step_running: "is_running_ptr (alone_step w) = is_running_ptr w"
  by (simp add: alone_step_def worker_step_running timeout_frame)

lemma stopped_alone_step:
  assumes "\<not> is_running_ptr w"
  shows "pc (alone_step w) =
    (case pc w of AtWhile \<Rightarrow> Returned | AtWait \<Rightarrow> AtCheck | AtCheck \<Rightarrow> AtWhile
     | AtDecide \<Rightarrow> AtReset | AtReset \<Rightarrow> AtWhile | Returned \<Rightarrow> Returned)"
  using assms
  by (cases "pc w") (auto simp add: alone_step_def timeout_def step_defs split: option.splits)

lemma stopped_exit3:
  assumes "\<not> is_running_ptr w"
  shows "pc ((alone_step ^^ 3) w) = Returned"
proof -
  have r1: "\<not> is_running_ptr (alone_step w)"
    using assms by (simp add: alone_step_running)
  then have r2: "\<not> is_running_ptr (alone_step (alone_step w))"
    by (simp add: alone_step_running)
  have "pc (alone_step (alone_step (alone_step w))) = Returned"
    by (cases "pc w") (simp_all add: stopped_alone_step [OF r2] stopped_alone_step [OF r1]
        stopped_alone_step [OF assms])
  then show ?thesis
    by (simp add: eval_nat_numeral)
qed

lemma stopped_worker_exit:
  "\<not> is_running_ptr w \<Longrightarrow> worker_exit w = Some ((alone_step ^^ 3) w)"
  by (rule worker_exit_fuel) (rule stopped_exit3)

lemma stop_not_running: "\<not> is_running_ptr (stop w)"
  by (simp add: stop_def)

lemma destructor_eq:
  "destructor fault w =
     Some (if joinable w
           then (case fault of
                   None \<Rightarrow> Returns (((alone_step ^^ 3) (stop w))\<lparr> joinable := False \<rparr>)
                 | Some e \<Rightarrow> Terminates (stop w))
           else Returns (stop w))"
proof -
  have j: "joinable (stop w) = joinable w"
    by (simp add: stop_def)
  show ?thesis
    by (cases fault)
      (simp_all add: destructor_def destructor_body_def thread_destructor_def try_block_def
        join_def Let_def j stopped_worker_exit [OF stop_not_running])
qed

lemma worker_step_potential:
  "calls (worker_step w) + wakes w + pending (worker_step w)
     \<le> calls w + wakes (worker_step w) + pending w"
  by (cases "pc w") (auto simp add: step_defs pending_def split: option.splits)

lemma perform_potential:
  "calls (perform a w) + wakes w + pending (perform a w)
     \<le> calls w + wakes (perform a w) + pending w"
  by (cases a) (simp_all add: worker_step_potential, simp_all add: owner_defs pending_def)

lemma exec_potential:
  "calls (exec as w) + wakes w + pending (exec as w)
     \<le> calls w + wakes (exec as w) + pending w"
proof (induction as arbitrary: w)
  case Nil
  show ?case by simp
next
  case (Cons a as)
  from Cons.IH [of "perform a w"] perform_potential [of a w]
  show ?case by simp
qed

lemma wait_for_flag: "wait_for w = Some r \<Longrightarrow> r = is_interrupted_ptr w"
  by (auto simp add: wait_for_def split: if_splits)

lemma worker_step_AtWait:
  "pc w = AtWait \<Longrightarrow> wait_for w = Some r \<Longrightarrow>
     worker_step w = w\<lparr> pc := AtCheck, is_interrupted := r, wakes := Suc (wakes w) \<rparr>"
  by (simp add: worker_step_def)

lemma worker_step_AtCheck:
  "pc w = AtCheck \<Longrightarrow> is_running_ptr w \<Longrightarrow> worker_step w = w\<lparr> pc := AtDecide \<rparr>"
  by (simp add: worker_step_def)

lemma worker_step_AtDecide:
  "pc w = AtDecide \<Longrightarrow>
     worker_step w =
       (if \<not> is_interrupted w \<or> execute_if_interrupted w
        then w\<lparr> pc := AtReset, env := fn w (env w), calls := Suc (calls w) \<rparr>
        else w\<lparr> pc := AtReset \<rparr>)"
  by (simp add: worker_step_def)

lemma worker_step_AtReset:
  "pc w = AtReset \<Longrightarrow> worker_step w = w\<lparr> pc := AtWhile, is_interrupted_ptr := False \<rparr>"
  by (simp add: worker_step_def)

lemma worker_step_flag:
  "pc w \<noteq> AtReset \<Longrightarrow> is_interrupted_ptr (worker_step w) = is_interrupted_ptr w"
  by (cases "pc w") (simp_all add: step_defs split: option.splits)

text \<open>
  The rest of an iteration, from the load of \<^verbatim>\<open>is_running_ptr\<close> after the wait to
  the store that ends it, with calls of the owning thread in between.
\<close>

lemma cycle_from_check:
  assumes c: "pc v = AtCheck" and r: "is_running_ptr v"
    and o2: "owner_only os2" and o3: "owner_only os3"
  shows "pc (exec (Worker # os2 @ [Worker]) v) = AtReset"
    and "calls (exec (Worker # os2 @ [Worker]) v) =
      (if \<not> is_interrupted v \<or> execute_if_interrupted v then Suc (calls v) else calls v)"
    and "env (exec (Worker # os2 @ [Worker]) v) =
      (if \<not> is_interrupted v \<or> execute_if_interrupted v then fn v (env v) else env v)"
    and "exec (Worker # os2 @ Worker # os3 @ [Worker]) v =
      (exec os3 (exec (Worker # os2 @ [Worker]) v))\<lparr> pc := AtWhile, is_interrupted_ptr := False \<rparr>"
proof -
  let ?v1 = "worker_step v"
  let ?v2 = "exec os2 ?v1"
  let ?v3 = "worker_step ?v2"
  let ?v4 = "exec os3 ?v3"
  have v1: "?v1 = v\<lparr> pc := AtDecide \<rparr>"
    using c r by (rule worker_step_AtCheck)
  have v2: "pc ?v2 = AtDecide" "is_interrupted ?v2 = is_interrupted v"
    "execute_if_interrupted ?v2 = execute_if_interrupted v"
    "calls ?v2 = calls v" "env ?v2 = env v" "fn ?v2 = fn v"
    using exec_owner_only [OF o2, of ?v1] by (simp_all add: v1)
  have e3: "exec (Worker # os2 @ [Worker]) v = ?v3"
    by (simp add: exec_append)
  have v3: "pc ?v3 = AtReset"
    by (simp add: worker_step_AtDecide [OF v2(1)])
  show "pc (exec (Worker # os2 @ [Worker]) v) = AtReset"
    unfolding e3 by (rule v3)
  show "calls (exec (Worker # os2 @ [Worker]) v) =
      (if \<not> is_interrupted v \<or> execute_if_interrupted v then Suc (calls v) else calls v)"
    unfolding e3 by (simp add: worker_step_AtDecide [OF v2(1)] v2)
  show "env (exec (Worker # os2 @ [Worker]) v) =
      (if \<not> is_interrupted v \<or> execute_if_interrupted v then fn v (env v) else env v)"
    unfolding e3 by (simp add: worker_step_AtDecide [OF v2(1)] v2)
  have v4: "pc ?v4 = AtReset"
    using exec_owner_only [OF o3, of ?v3] v3 by simp
  have "exec (Worker # os2 @ Worker # os3 @ [Worker]) v = worker_step ?v4"
    by (simp add: exec_append)
  also have "\<dots> = ?v4\<lparr> pc := AtWhile, is_interrupted_ptr := False \<rparr>"
    using v4 by (rule worker_step_AtReset)
  finally show "exec (Worker # os2 @ Worker # os3 @ [Worker]) v =
      (exec os3 (exec (Worker # os2 @ [Worker]) v))\<lparr> pc := AtWhile, is_interrupted_ptr := False \<rparr>"
    unfolding e3 .
qed

subsection \<open>The unit tests\<close>

text \<open>
  The two tests of \<^verbatim>\<open>unit_test.cpp\<close>, with a worker that moves as soon as it
  can (five steps take it from one wait to the next) and one tick for a
  millisecond.  \<^verbatim>\<open>InterruptDoesNothing\<close>: two invocations in 2500 ms, still two
  once the interrupt has been taken, four after 2500 ms more.
  \<^verbatim>\<open>InterruptDoesSomething\<close>, in part: an interrupt forces one invocation, and
  none follows within the next 150 ms.
\<close>

lemma unit_test_InterruptDoesNothing:
  "calls (exec [Worker, Elapse 1000, Worker, Worker, Worker, Worker, Worker,
                Elapse 1000, Worker, Worker, Worker, Worker, Worker, Elapse 500]
            (repeater 1000 False Suc (0::nat))) = 2 \<and>
   calls (exec [Worker, Elapse 1000, Worker, Worker, Worker, Worker, Worker,
                Elapse 1000, Worker, Worker, Worker, Worker, Worker, Elapse 500,
                Interrupt, Worker, Worker, Worker, Worker, Worker]
            (repeater 1000 False Suc (0::nat))) = 2 \<and>
   calls (exec [Worker, Elapse 1000, Worker, Worker, Worker, Worker, Worker,
                Elapse 1000, Worker, Worker, Worker, Worker, Worker, Elapse 500,
                Interrupt, Worker, Worker, Worker, Worker, Worker,
                Elapse 1000, Worker, Worker, Worker, Worker, Worker,
                Elapse 1000, Worker, Worker, Worker, Worker, Worker, Elapse 500]
            (repeater 1000 False Suc (0::nat))) = 4"
  by (simp add: eval_defs)

lemma unit_test_InterruptDoesSomething:
  "calls (exec [Worker, Elapse 500, Worker, Worker, Worker, Worker, Worker,
                Elapse 200, Interrupt, Worker, Worker, Worker, Worker, Worker, Elapse 50]
            (repeater 500 True Suc (0::nat))) = 2 \<and>
   calls (exec [Worker, Elapse 500, Worker, Worker, Worker, Worker, Worker,
                Elapse 200, Interrupt, Worker, Worker, Worker, Worker, Worker, Elapse 50,
                Elapse 100, Worker]
            (repeater 500 True Suc (0::nat))) = 2"
  by (simp add: eval_defs)

subsection \<open>The decision after a wake\<close>

text \<open>
  Claim C1.  Take the worker inside \<^verbatim>\<open>wait_for\<close>, at a moment when the wait
  returns \<open>r\<close>: \<open>False\<close> when it timed out with the interrupt flag clear,
  \<open>True\<close> when the flag was set.  Whatever the owning thread does between the
  worker's steps, if the worker then reads the running flag as true, the
  iteration invokes the callback exactly once when the wait timed out, or when
  it was interrupted and \<open>execute_if_interrupted\<close> holds, and not at all when
  it was interrupted and \<open>execute_if_interrupted\<close> is false.
\<close>

theorem wake_decides_callback:
  assumes "pc w = AtWait" and "wait_for w = Some r"
    and "owner_only os1" and "owner_only os2" and "owner_only os3"
    and "is_running_ptr (exec (Worker # os1) w)"
  shows "r = is_interrupted_ptr w \<and>
    pc (exec (Worker # os1 @ Worker # os2 @ Worker # os3 @ [Worker]) w) = AtWhile \<and>
    calls (exec (Worker # os1 @ Worker # os2 @ Worker # os3 @ [Worker]) w) =
      (if \<not> r \<or> (r \<and> execute_if_interrupted w) then Suc (calls w) else calls w) \<and>
    env (exec (Worker # os1 @ Worker # os2 @ Worker # os3 @ [Worker]) w) =
      (if \<not> r \<or> (r \<and> execute_if_interrupted w) then fn w (env w) else env w)"
proof -
  let ?v = "exec (Worker # os1) w"
  have w1: "worker_step w = w\<lparr> pc := AtCheck, is_interrupted := r, wakes := Suc (wakes w) \<rparr>"
    using assms(1,2) by (rule worker_step_AtWait)
  have v: "pc ?v = AtCheck" "is_interrupted ?v = r"
    "execute_if_interrupted ?v = execute_if_interrupted w"
    "calls ?v = calls w" "env ?v = env w" "fn ?v = fn w"
    using exec_owner_only [OF assms(3), of "worker_step w"] by (simp_all add: w1)
  have split: "exec (Worker # os1 @ Worker # os2 @ Worker # os3 @ [Worker]) w =
      exec (Worker # os2 @ Worker # os3 @ [Worker]) ?v"
    by (simp add: exec_append)
  note cyc = cycle_from_check [OF v(1) assms(6) assms(4) assms(5)]
  have fin: "exec (Worker # os2 @ Worker # os3 @ [Worker]) ?v =
      (exec os3 (exec (Worker # os2 @ [Worker]) ?v))\<lparr> pc := AtWhile, is_interrupted_ptr := False \<rparr>"
    by (rule cyc(4))
  have keep: "calls (exec os3 (exec (Worker # os2 @ [Worker]) ?v)) = calls (exec (Worker # os2 @ [Worker]) ?v)"
    "env (exec os3 (exec (Worker # os2 @ [Worker]) ?v)) = env (exec (Worker # os2 @ [Worker]) ?v)"
    using exec_owner_only [OF assms(5), of "exec (Worker # os2 @ [Worker]) ?v"] by simp_all
  have "r = is_interrupted_ptr w"
    using assms(2) by (rule wait_for_flag)
  moreover have "pc (exec (Worker # os1 @ Worker # os2 @ Worker # os3 @ [Worker]) w) = AtWhile"
    unfolding split fin by simp
  moreover have "calls (exec (Worker # os1 @ Worker # os2 @ Worker # os3 @ [Worker]) w) =
      (if \<not> r \<or> (r \<and> execute_if_interrupted w) then Suc (calls w) else calls w)"
    unfolding split fin using keep(1) cyc(2) v by auto
  moreover have "env (exec (Worker # os1 @ Worker # os2 @ Worker # os3 @ [Worker]) w) =
      (if \<not> r \<or> (r \<and> execute_if_interrupted w) then fn w (env w) else env w)"
    unfolding split fin using keep(2) cyc(3) v by auto
  ultimately show ?thesis by blast
qed

theorem wake_decides_callback_witness:
  "pc (exec [Worker, Elapse 1000] (repeater 1000 False Suc (0::nat))) = AtWait \<and>
   wait_for (exec [Worker, Elapse 1000] (repeater 1000 False Suc (0::nat))) = Some False \<and>
   owner_only [Elapse 3] \<and> owner_only [Interrupt] \<and> owner_only [Stop] \<and>
   is_running_ptr (exec (Worker # [Elapse 3]) (exec [Worker, Elapse 1000] (repeater 1000 False Suc (0::nat)))) \<and>
   calls (exec (Worker # [Elapse 3] @ Worker # [Interrupt] @ Worker # [Stop] @ [Worker])
     (exec [Worker, Elapse 1000] (repeater 1000 False Suc (0::nat)))) = 1 \<and>
   env (exec (Worker # [Elapse 3] @ Worker # [Interrupt] @ Worker # [Stop] @ [Worker])
     (exec [Worker, Elapse 1000] (repeater 1000 False Suc (0::nat)))) = 1"
proof -
  let ?w = "exec [Worker, Elapse 1000] (repeater 1000 False Suc (0::nat))"
  have h1: "pc ?w = AtWait" by (simp add: eval_defs)
  have h2: "wait_for ?w = Some False" by (simp add: eval_defs)
  have h3: "owner_only [Elapse 3]" by (simp add: owner_only_def)
  have h4: "owner_only [Interrupt]" by (simp add: owner_only_def)
  have h5: "owner_only [Stop]" by (simp add: owner_only_def)
  have h6: "is_running_ptr (exec (Worker # [Elapse 3]) ?w)" by (simp add: eval_defs)
  have c: "calls ?w = 0" "env ?w = 0" "fn ?w = Suc" by (simp_all add: eval_defs)
  from wake_decides_callback [OF h1 h2 h3 h4 h5 h6] h1 h2 h3 h4 h5 h6 c
  show ?thesis by simp
qed

subsection \<open>After the stop has been observed\<close>

text \<open>
  Once the running flag is clear and the worker stands at the loop test or has
  returned, nothing invokes the callback any more.
\<close>


lemma exited_perform:
  assumes "\<not> is_running_ptr w" and "pc w = AtWhile \<or> pc w = Returned"
  shows "\<not> is_running_ptr (perform a w) \<and>
    (pc (perform a w) = AtWhile \<or> pc (perform a w) = Returned) \<and>
    calls (perform a w) = calls w \<and> env (perform a w) = env w \<and>
    (pc w = Returned \<or> a = Worker \<longrightarrow> pc (perform a w) = Returned)"
  using assms by (cases a) (auto simp add: worker_step_def owner_defs)

lemma exited_alone_step:
  assumes "\<not> is_running_ptr w" and "pc w = AtWhile \<or> pc w = Returned"
  shows "\<not> is_running_ptr (alone_step w) \<and>
    (pc (alone_step w) = AtWhile \<or> pc (alone_step w) = Returned) \<and>
    calls (alone_step w) = calls w \<and> env (alone_step w) = env w \<and>
    (pc w = Returned \<longrightarrow> pc (alone_step w) = Returned)"
  using assms by (auto simp add: alone_step_def timeout_def worker_step_def)

lemma exited_funpow:
  assumes "\<not> is_running_ptr w" and "pc w = AtWhile \<or> pc w = Returned"
  shows "\<not> is_running_ptr ((alone_step ^^ n) w) \<and>
    (pc ((alone_step ^^ n) w) = AtWhile \<or> pc ((alone_step ^^ n) w) = Returned) \<and>
    calls ((alone_step ^^ n) w) = calls w \<and> env ((alone_step ^^ n) w) = env w \<and>
    (pc w = Returned \<longrightarrow> pc ((alone_step ^^ n) w) = Returned)"
proof (induction n)
  case 0
  show ?case using assms by simp
next
  case (Suc n)
  then have "\<not> is_running_ptr ((alone_step ^^ n) w)"
    and "pc ((alone_step ^^ n) w) = AtWhile \<or> pc ((alone_step ^^ n) w) = Returned"
    by simp_all
  from exited_alone_step [OF this] Suc show ?case
    by simp
qed

lemma exited_destructor:
  assumes "\<not> is_running_ptr w" and "pc w = AtWhile \<or> pc w = Returned"
  shows "\<exists>w'. (destructor fault w = Some (Returns w') \<or>
                destructor fault w = Some (Terminates w')) \<and>
    \<not> is_running_ptr w' \<and> (pc w' = AtWhile \<or> pc w' = Returned) \<and>
    calls w' = calls w \<and> env w' = env w \<and> (pc w = Returned \<longrightarrow> pc w' = Returned)"
proof -
  have s: "\<not> is_running_ptr (stop w)" "pc (stop w) = AtWhile \<or> pc (stop w) = Returned"
    "calls (stop w) = calls w" "env (stop w) = env w" "pc (stop w) = pc w"
    using assms by (simp_all add: stop_def)
  from exited_funpow [OF s(1,2), of 3] s show ?thesis
    by (cases fault) (simp_all add: destructor_eq)
qed

lemma exited_run:
  assumes "\<not> is_running_ptr w" and "pc w = AtWhile \<or> pc w = Returned"
  shows "\<exists>w'. (run es w = Some (Returns w') \<and>
                  (pc w = Returned \<or> Act Worker \<in> set es \<longrightarrow> pc w' = Returned) \<or>
                run es w = Some (Terminates w')) \<and>
    \<not> is_running_ptr w' \<and> calls w' = calls w \<and> env w' = env w"
  using assms
proof (induction es arbitrary: w)
  case Nil
  then show ?case by simp
next
  case (Cons x es)
  show ?case
  proof (cases x)
    case (Act a)
    note p = exited_perform [OF Cons.prems, of a]
    from p have "\<not> is_running_ptr (perform a w)"
      and "pc (perform a w) = AtWhile \<or> pc (perform a w) = Returned"
      by simp_all
    from Cons.IH [OF this] obtain w'
      where w': "run es (perform a w) = Some (Returns w') \<and>
          (pc (perform a w) = Returned \<or> Act Worker \<in> set es \<longrightarrow> pc w' = Returned) \<or>
          run es (perform a w) = Some (Terminates w')"
        "\<not> is_running_ptr w'" "calls w' = calls (perform a w)" "env w' = env (perform a w)"
      by blast
    with p Act show ?thesis by auto
  next
    case (Destroy fault)
    from exited_destructor [OF Cons.prems, of fault] obtain v
      where d: "destructor fault w = Some (Returns v) \<or> destructor fault w = Some (Terminates v)"
        and v: "\<not> is_running_ptr v" "pc v = AtWhile \<or> pc v = Returned"
        "calls v = calls w" "env v = env w" "pc w = Returned \<longrightarrow> pc v = Returned"
      by blast
    from d show ?thesis
    proof
      assume r: "destructor fault w = Some (Returns v)"
      from Cons.IH [OF v(1,2)] obtain w'
        where w': "run es v = Some (Returns w') \<and>
            (pc v = Returned \<or> Act Worker \<in> set es \<longrightarrow> pc w' = Returned) \<or>
            run es v = Some (Terminates w')"
          "\<not> is_running_ptr w'" "calls w' = calls v" "env w' = env v"
        by blast
      with v r Destroy show ?thesis by auto
    next
      assume "destructor fault w = Some (Terminates v)"
      with v Destroy show ?thesis by auto
    qed
  qed
qed

text \<open>
  Claim C2.  When the worker reads the running flag as false, after a wake
  (line 113) or at the loop test (line 104), then whatever follows (worker
  steps, \<^verbatim>\<open>interrupt()\<close>, \<^verbatim>\<open>stop()\<close>, time passing, destruction) the callback
  is not invoked again.  The run either goes on to its end, and then the
  worker has returned as soon as it has taken one more step, or is cut short
  by a destructor that ends the process.
\<close>

theorem no_callback_after_stop_observed:
  assumes "pc w = AtCheck \<or> pc w = AtWhile" and "\<not> is_running_ptr w"
  shows "\<exists>w'. (run (Act Worker # es) w = Some (Returns w') \<and>
                  (Act Worker \<in> set es \<longrightarrow> pc w' = Returned) \<or>
                run (Act Worker # es) w = Some (Terminates w')) \<and>
    calls w' = calls w \<and> env w' = env w"
proof -
  have s: "calls (worker_step w) = calls w" "env (worker_step w) = env w"
    and "\<not> is_running_ptr (worker_step w)"
    and "pc (worker_step w) = AtWhile \<or> pc (worker_step w) = Returned"
    using assms by (auto simp add: worker_step_def)
  from exited_run [OF this(3,4), of es] s show ?thesis
    by auto
qed

theorem no_callback_after_stop_observed_witness:
  "pc (exec [Worker, Stop, Worker] (repeater 1000 True Suc (0::nat))) = AtCheck \<and>
   \<not> is_running_ptr (exec [Worker, Stop, Worker] (repeater 1000 True Suc (0::nat))) \<and>
   (\<exists>w'. run [Act Worker, Act Interrupt, Act (Elapse 5000), Act Worker, Destroy None, Act Worker]
       (exec [Worker, Stop, Worker] (repeater 1000 True Suc (0::nat))) = Some (Returns w') \<and>
     calls w' = 0 \<and> env w' = 0 \<and> pc w' = Returned)"
proof -
  let ?w = "exec [Worker, Stop, Worker] (repeater 1000 True Suc (0::nat))"
  let ?es = "[Act Interrupt, Act (Elapse 5000), Act Worker, Destroy None, Act Worker]"
  have h1: "pc ?w = AtCheck" by (simp add: eval_defs)
  then have h1': "pc ?w = AtCheck \<or> pc ?w = AtWhile" by (rule disjI1)
  have h2: "\<not> is_running_ptr ?w" by (simp add: eval_defs)
  have c: "calls ?w = 0" "env ?w = 0" by (simp_all add: eval_defs)
  have j: "joinable (worker_step (perform (Elapse 5000) (interrupt (worker_step ?w))))"
    by (simp add: eval_defs)
  have n: "run (Act Worker # ?es) ?w \<noteq> Some (Terminates v)" for v
    using j by (simp add: destructor_eq)
  from no_callback_after_stop_observed [OF h1' h2, of ?es] obtain w'
    where "run (Act Worker # ?es) ?w = Some (Returns w') \<and>
        (Act Worker \<in> set ?es \<longrightarrow> pc w' = Returned) \<or>
        run (Act Worker # ?es) ?w = Some (Terminates w')"
      and "calls w' = calls ?w" and "env w' = env ?w"
    by blast
  with n c have "run (Act Worker # ?es) ?w = Some (Returns w') \<and>
      calls w' = 0 \<and> env w' = 0 \<and> pc w' = Returned"
    by auto
  with h1 h2 show ?thesis by blast
qed

subsection \<open>The running flag\<close>

lemma destructor_running:
  "\<exists>w'. (destructor fault w = Some (Returns w') \<or> destructor fault w = Some (Terminates w')) \<and>
     \<not> is_running_ptr w'"
proof -
  have "\<not> is_running_ptr ((alone_step ^^ n) (stop w))" for n
    by (induction n) (simp_all add: alone_step_running stop_not_running)
  then show ?thesis
    by (cases fault) (simp_all add: destructor_eq stop_not_running)
qed

lemma run_running:
  "\<exists>w'. (run es w = Some (Returns w') \<or> run es w = Some (Terminates w')) \<and>
     (\<not> is_running_ptr w \<longrightarrow> \<not> is_running_ptr w')"
proof (induction es arbitrary: w)
  case Nil
  show ?case by simp
next
  case (Cons x es)
  show ?case
  proof (cases x)
    case (Act a)
    from Cons.IH [of "perform a w"] perform_running [of w a] Act
    show ?thesis by auto
  next
    case (Destroy fault)
    from destructor_running [of fault w] obtain v
      where d: "destructor fault w = Some (Returns v) \<or> destructor fault w = Some (Terminates v)"
        and v: "\<not> is_running_ptr v"
      by blast
    from d show ?thesis
    proof
      assume "destructor fault w = Some (Returns v)"
      with Cons.IH [of v] v Destroy show ?thesis by auto
    next
      assume "destructor fault w = Some (Terminates v)"
      with v Destroy show ?thesis by auto
    qed
  qed
qed

text \<open>
  Claim C3.  The running flag is true after construction; \<^verbatim>\<open>interrupt()\<close> and
  the worker's steps leave it as it is, \<^verbatim>\<open>stop()\<close> clears it; and along any
  sequence of worker steps, \<^verbatim>\<open>interrupt()\<close>, \<^verbatim>\<open>stop()\<close>, time passing and
  destruction, once it is false it is false ever after: it falls at most once
  and never rises.  Every such sequence runs to its end or up to a destructor
  that ends the process; none hangs and none lets an exception escape.
\<close>

theorem running_flag_monotone:
  "is_running_ptr (repeater iv eii f e) \<and>
   is_running_ptr (interrupt w) = is_running_ptr w \<and>
   is_running_ptr (worker_step w) = is_running_ptr w \<and>
   \<not> is_running_ptr (stop w) \<and>
   (\<exists>w'. (run es w = Some (Returns w') \<or> run es w = Some (Terminates w')) \<and>
      (\<not> is_running_ptr w \<longrightarrow> \<not> is_running_ptr w'))"
  using run_running [of es w]
  by (simp add: worker_step_running stop_not_running) (simp add: repeater_def interrupt_def)

theorem running_flag_monotone_witness:
  "is_running_ptr (repeater 1000 True Suc (0::nat)) \<and>
   \<not> is_running_ptr (stop (repeater 1000 True Suc (0::nat))) \<and>
   (\<exists>w'. (run [Act Interrupt, Act Worker, Destroy None, Act Interrupt, Act Worker]
         (stop (repeater 1000 True Suc (0::nat))) = Some (Returns w') \<or>
       run [Act Interrupt, Act Worker, Destroy None, Act Interrupt, Act Worker]
         (stop (repeater 1000 True Suc (0::nat))) = Some (Terminates w')) \<and>
      \<not> is_running_ptr w')"
  using running_flag_monotone [of 1000 True Suc "0::nat" "stop (repeater 1000 True Suc (0::nat))"
      "[Act Interrupt, Act Worker, Destroy None, Act Interrupt, Act Worker]"]
  by (simp add: stop_not_running)

subsection \<open>The reset of the interrupt flag\<close>

text \<open>
  Claim C4 says that the worker clears the interrupt flag right after the wake
  and before it decides whether to invoke the callback.  It does not: after an
  interrupted wait with the running flag true, the worker reaches the test that
  guards \<^verbatim>\<open>fn()\<close> with the interrupt flag still set, and the flag is still set
  after the callback has run.
\<close>

theorem flag_cleared_before_decision_counterexample:
  "pc (exec [Worker, Interrupt, Worker, Worker] (repeater 1000 True Suc (0::nat))) = AtDecide \<and>
   is_running_ptr (exec [Worker, Interrupt, Worker, Worker] (repeater 1000 True Suc (0::nat))) \<and>
   wakes (exec [Worker, Interrupt, Worker, Worker] (repeater 1000 True Suc (0::nat))) = 1 \<and>
   is_interrupted_ptr (exec [Worker, Interrupt, Worker, Worker] (repeater 1000 True Suc (0::nat))) \<and>
   calls (exec [Worker, Interrupt, Worker, Worker, Worker] (repeater 1000 True Suc (0::nat))) = 1 \<and>
   is_interrupted_ptr (exec [Worker, Interrupt, Worker, Worker, Worker] (repeater 1000 True Suc (0::nat)))"
  by (simp add: eval_defs)

text \<open>
  Claim C4, amended.  No step of the worker other than the store of line 122
  writes the interrupt flag.  When the worker reads the running flag as true
  after a wake, it first decides (and invokes the callback if it so decides)
  and then, as the last step of the iteration, clears the interrupt flag,
  whatever the owning thread does in between.  If the running flag is still
  true then and nothing intervenes, the next wait begins with the interrupt
  flag clear.
\<close>

theorem flag_reset_ends_cycle:
  assumes "pc w = AtCheck" and "is_running_ptr w"
    and "owner_only os2" and "owner_only os3"
  shows "(pc v \<noteq> AtReset \<longrightarrow> is_interrupted_ptr (worker_step v) = is_interrupted_ptr v) \<and>
    pc (exec (Worker # os2 @ [Worker]) w) = AtReset \<and>
    pc (exec (Worker # os2 @ Worker # os3 @ [Worker]) w) = AtWhile \<and>
    \<not> is_interrupted_ptr (exec (Worker # os2 @ Worker # os3 @ [Worker]) w) \<and>
    (is_running_ptr (exec (Worker # os2 @ Worker # os3 @ [Worker]) w) \<longrightarrow>
       pc (exec (Worker # os2 @ Worker # os3 @ [Worker, Worker]) w) = AtWait \<and>
       \<not> is_interrupted_ptr (exec (Worker # os2 @ Worker # os3 @ [Worker, Worker]) w))"
proof -
  note cyc = cycle_from_check [OF assms]
  let ?u = "exec (Worker # os2 @ Worker # os3 @ [Worker]) w"
  have u: "pc ?u = AtWhile" "\<not> is_interrupted_ptr ?u"
    unfolding cyc(4) by simp_all
  have "exec (Worker # os2 @ Worker # os3 @ [Worker, Worker]) w = worker_step ?u"
    using exec_append [of "Worker # os2 @ Worker # os3 @ [Worker]" "[Worker]" w] by simp
  moreover have "is_running_ptr ?u \<Longrightarrow>
      pc (worker_step ?u) = AtWait \<and> \<not> is_interrupted_ptr (worker_step ?u)"
    using u by (simp add: worker_step_def)
  ultimately show ?thesis
    using u cyc(1) worker_step_flag [of v] by simp
qed

theorem flag_reset_ends_cycle_witness:
  "pc (exec [Worker, Interrupt, Worker] (repeater 1000 True Suc (0::nat))) = AtCheck \<and>
   is_running_ptr (exec [Worker, Interrupt, Worker] (repeater 1000 True Suc (0::nat))) \<and>
   owner_only [Elapse 7] \<and> owner_only [Interrupt] \<and>
   is_interrupted_ptr (exec (Worker # [Elapse 7] @ [Worker])
     (exec [Worker, Interrupt, Worker] (repeater 1000 True Suc (0::nat)))) \<and>
   pc (exec (Worker # [Elapse 7] @ Worker # [Interrupt] @ [Worker, Worker])
     (exec [Worker, Interrupt, Worker] (repeater 1000 True Suc (0::nat)))) = AtWait \<and>
   \<not> is_interrupted_ptr (exec (Worker # [Elapse 7] @ Worker # [Interrupt] @ [Worker, Worker])
     (exec [Worker, Interrupt, Worker] (repeater 1000 True Suc (0::nat))))"
proof -
  let ?w = "exec [Worker, Interrupt, Worker] (repeater 1000 True Suc (0::nat))"
  have h1: "pc ?w = AtCheck" by (simp add: eval_defs)
  have h2: "is_running_ptr ?w" by (simp add: eval_defs)
  have h3: "owner_only [Elapse 7]" by (simp add: owner_only_def)
  have h4: "owner_only [Interrupt]" by (simp add: owner_only_def)
  have r: "is_running_ptr (exec (Worker # [Elapse 7] @ Worker # [Interrupt] @ [Worker]) ?w)"
    by (simp add: eval_defs)
  have i: "is_interrupted_ptr (exec (Worker # [Elapse 7] @ [Worker]) ?w)"
    by (simp add: eval_defs)
  from flag_reset_ends_cycle [OF h1 h2 h3 h4, of "repeater 1000 True Suc (0::nat)"] r
  have "pc (exec (Worker # [Elapse 7] @ Worker # [Interrupt] @ [Worker, Worker]) ?w) = AtWait \<and>
       \<not> is_interrupted_ptr (exec (Worker # [Elapse 7] @ Worker # [Interrupt] @ [Worker, Worker]) ?w)"
    by blast
  with h1 h2 h3 h4 i show ?thesis by blast
qed

subsection \<open>stop and interrupt\<close>

text \<open>
  Claim C5.  After \<^verbatim>\<open>stop()\<close> the running flag is false and the interrupt flag
  is true, and one notification has been made.  A second \<^verbatim>\<open>stop()\<close> leaves
  both flags, and everything but the count of notifications, as the first left
  them; and a worker that has returned does nothing after a \<^verbatim>\<open>stop()\<close>.
\<close>

theorem stop_idempotent:
  "\<not> is_running_ptr (stop w) \<and> is_interrupted_ptr (stop w) \<and> cv_ptr (stop w) = Suc (cv_ptr w) \<and>
   is_running_ptr (stop (stop w)) = is_running_ptr (stop w) \<and>
   is_interrupted_ptr (stop (stop w)) = is_interrupted_ptr (stop w) \<and>
   stop (stop w) = (stop w)\<lparr> cv_ptr := Suc (cv_ptr (stop w)) \<rparr> \<and>
   (pc w = Returned \<longrightarrow> worker_step (stop w) = stop w)"
  by (simp add: stop_def worker_step_def)

theorem stop_idempotent_witness:
  "pc (exec [Stop, Worker] (repeater 1000 True Suc (0::nat))) = Returned \<and>
   \<not> is_running_ptr (stop (exec [Stop, Worker] (repeater 1000 True Suc (0::nat)))) \<and>
   is_interrupted_ptr (stop (exec [Stop, Worker] (repeater 1000 True Suc (0::nat)))) \<and>
   cv_ptr (stop (exec [Stop, Worker] (repeater 1000 True Suc (0::nat)))) = 2 \<and>
   worker_step (stop (exec [Stop, Worker] (repeater 1000 True Suc (0::nat)))) =
     stop (exec [Stop, Worker] (repeater 1000 True Suc (0::nat)))"
proof -
  let ?w = "exec [Stop, Worker] (repeater 1000 True Suc (0::nat))"
  have h: "pc ?w = Returned" by (simp add: eval_defs)
  have c: "cv_ptr ?w = 1" by (simp add: eval_defs)
  from stop_idempotent [of ?w] h c show ?thesis by simp
qed

text \<open>
  Claim C6.  \<^verbatim>\<open>interrupt()\<close> sets the interrupt flag and notifies once.  When
  the flag is already set, the call changes nothing but the count of
  notifications; so does a second call right after a first.
\<close>

theorem interrupt_idempotent:
  "is_interrupted_ptr (interrupt w) \<and> cv_ptr (interrupt w) = Suc (cv_ptr w) \<and>
   (is_interrupted_ptr w \<longrightarrow> interrupt w = w\<lparr> cv_ptr := Suc (cv_ptr w) \<rparr>) \<and>
   interrupt (interrupt w) = (interrupt w)\<lparr> cv_ptr := Suc (cv_ptr (interrupt w)) \<rparr>"
  by (simp add: interrupt_def)

theorem interrupt_idempotent_witness:
  "is_interrupted_ptr (interrupt (repeater 1000 False Suc (0::nat))) \<and>
   interrupt (interrupt (repeater 1000 False Suc (0::nat))) =
     (interrupt (repeater 1000 False Suc (0::nat)))\<lparr> cv_ptr := 2 \<rparr>"
proof -
  let ?w = "interrupt (repeater 1000 False Suc (0::nat))"
  have h: "is_interrupted_ptr ?w" by (simp add: eval_defs)
  have c: "cv_ptr ?w = 1" by (simp add: eval_defs)
  from interrupt_idempotent [of ?w] h c show ?thesis by simp
qed

subsection \<open>Destruction\<close>

lemma funpow_alone_frame:
  "cv_ptr ((alone_step ^^ n) w) = cv_ptr w \<and> joinable ((alone_step ^^ n) w) = joinable w \<and>
   is_running_ptr ((alone_step ^^ n) w) = is_running_ptr w"
  by (induction n) (simp_all add: alone_step_def worker_step_frame worker_step_running timeout_frame)

text \<open>
  What the worker still does once the running flag is clear and it is left
  alone: it returns within three steps, invoking the callback once more only
  if it had already passed the load of line 113 and decides for it.
\<close>

lemma stopped_alone_step_calls:
  assumes "\<not> is_running_ptr w"
  shows "calls (alone_step w) =
      (if pc w = AtDecide \<and> (\<not> is_interrupted w \<or> execute_if_interrupted w)
       then Suc (calls w) else calls w) \<and>
    env (alone_step w) =
      (if pc w = AtDecide \<and> (\<not> is_interrupted w \<or> execute_if_interrupted w)
       then fn w (env w) else env w)"
  using assms
  by (cases "pc w") (auto simp add: alone_step_def timeout_def step_defs split: option.splits)

lemma stopped_alone_step_quiet:
  assumes "\<not> is_running_ptr w"
  shows "calls (alone_step (alone_step w)) = calls (alone_step w) \<and>
    env (alone_step (alone_step w)) = env (alone_step w)"
proof -
  have r: "\<not> is_running_ptr (alone_step w)"
    using assms by (simp add: alone_step_running)
  have "pc (alone_step w) \<noteq> AtDecide"
    by (cases "pc w") (simp_all add: stopped_alone_step [OF assms])
  with stopped_alone_step_calls [OF r] show ?thesis
    by simp
qed

lemma stopped_exit_calls:
  assumes "\<not> is_running_ptr w"
  shows "calls ((alone_step ^^ 3) w) =
      (if pc w = AtDecide \<and> (\<not> is_interrupted w \<or> execute_if_interrupted w)
       then Suc (calls w) else calls w) \<and>
    env ((alone_step ^^ 3) w) =
      (if pc w = AtDecide \<and> (\<not> is_interrupted w \<or> execute_if_interrupted w)
       then fn w (env w) else env w)"
proof -
  have r: "\<not> is_running_ptr (alone_step w)"
    using assms by (simp add: alone_step_running)
  have e: "(alone_step ^^ 3) w = alone_step (alone_step (alone_step w))"
    by (simp add: eval_nat_numeral)
  from stopped_alone_step_quiet [OF r] stopped_alone_step_quiet [OF assms]
  have "calls (alone_step (alone_step (alone_step w))) = calls (alone_step w)"
    and "env (alone_step (alone_step (alone_step w))) = env (alone_step w)"
    by simp_all
  with stopped_alone_step_calls [OF assms] show ?thesis
    unfolding e by simp
qed

text \<open>
  Destruction when \<^verbatim>\<open>join\<close> does not throw, in every state, whether or not
  \<^verbatim>\<open>stop()\<close> was called before: \<^verbatim>\<open>stop()\<close> is performed, a joinable thread is
  joined, and the destructor returns with the running flag clear.  After the
  join the worker has returned, the thread is no longer joinable, and the
  callback has been invoked at most once more.
\<close>

lemma destructor_joins:
  "\<exists>w'. destructor None w = Some (Returns w') \<and>
     \<not> is_running_ptr w' \<and> cv_ptr w' = Suc (cv_ptr w) \<and>
     (joinable w \<longrightarrow>
        join None (stop w) = Some (Returns w') \<and> pc w' = Returned \<and> \<not> joinable w' \<and>
        calls w' =
          (if pc w = AtDecide \<and> (\<not> is_interrupted w \<or> execute_if_interrupted w)
           then Suc (calls w) else calls w)) \<and>
     (\<not> joinable w \<longrightarrow> w' = stop w)"
proof -
  have s: "\<not> is_running_ptr (stop w)" "cv_ptr (stop w) = Suc (cv_ptr w)"
    "pc (stop w) = pc w" "is_interrupted (stop w) = is_interrupted w"
    "execute_if_interrupted (stop w) = execute_if_interrupted w" "calls (stop w) = calls w"
    by (simp_all add: stop_def)
  have j: "join None (stop w) = Some (Returns (((alone_step ^^ 3) (stop w))\<lparr> joinable := False \<rparr>))"
    by (simp add: join_def stopped_worker_exit [OF s(1)])
  have p: "pc ((alone_step ^^ 3) (stop w)) = Returned"
    by (rule stopped_exit3 [OF s(1)])
  show ?thesis
    using s j p funpow_alone_frame [of 3 "stop w"] stopped_exit_calls [OF s(1)]
    by (auto simp add: destructor_eq)
qed

text \<open>No exception leaves the destructor, and the destructor does not hang.\<close>

lemma destructor_no_exception:
  "\<exists>w'. destructor fault w = Some (Returns w') \<or> destructor fault w = Some (Terminates w')"
  by (cases fault) (simp_all add: destructor_eq)

text \<open>
  Claim C7 says that destruction lets no failure of \<^verbatim>\<open>join\<close> out.  The code
  falls short of it.  When \<^verbatim>\<open>join\<close> of a joinable thread throws, the handler
  does catch the exception and the body of the destructor returns, in the
  state that \<^verbatim>\<open>stop()\<close> left; but the thread is still joinable then, and the
  destruction of the member \<^verbatim>\<open>t\<close> ends the process.
\<close>

theorem destructor_join_error_terminates:
  assumes "joinable w"
  shows "try_block (Some e) w = Some (Throws e (stop w)) \<and>
    destructor_body (Some e) w = Some (Returns (stop w)) \<and>
    joinable (stop w) \<and>
    destructor (Some e) w = Some (Terminates (stop w))"
proof -
  have j: "joinable (stop w)"
    using assms by (simp add: stop_def)
  then have t: "try_block (Some e) w = Some (Throws e (stop w))"
    by (simp add: try_block_def join_def Let_def)
  then have b: "destructor_body (Some e) w = Some (Returns (stop w))"
    by (simp add: destructor_body_def)
  from j b have "destructor (Some e) w = Some (Terminates (stop w))"
    by (simp add: destructor_def thread_destructor_def)
  with t b j show ?thesis by blast
qed

theorem destructor_join_error_terminates_witness:
  "joinable (repeater 1000 False Suc (0::nat)) \<and>
   destructor_body (Some (System_error 35)) (repeater 1000 False Suc (0::nat)) =
     Some (Returns (stop (repeater 1000 False Suc (0::nat)))) \<and>
   destructor (Some (System_error 35)) (repeater 1000 False Suc (0::nat)) =
     Some (Terminates (stop (repeater 1000 False Suc (0::nat))))"
proof -
  have h: "joinable (repeater 1000 False Suc (0::nat))"
    by (simp add: repeater_def)
  from destructor_join_error_terminates [OF h, of "System_error 35"] h
  show ?thesis by blast
qed

subsection \<open>Construction\<close>

text \<open>
  Claim C8.  For every interval, policy flag and callback, the constructed
  state has the running flag true and the interrupt flag false, holds the
  three arguments, and has a joinable worker at the loop test with no callback
  invoked.  The worker's first step enters the wait, and in every execution
  from the constructed state the number of callback invocations is at most the
  number of waits that have returned.
\<close>

theorem construction_initial_state:
  "is_running_ptr (repeater iv eii f e) \<and> \<not> is_interrupted_ptr (repeater iv eii f e) \<and>
   interval (repeater iv eii f e) = iv \<and> execute_if_interrupted (repeater iv eii f e) = eii \<and>
   fn (repeater iv eii f e) = f \<and> joinable (repeater iv eii f e) \<and>
   pc (repeater iv eii f e) = AtWhile \<and> calls (repeater iv eii f e) = 0 \<and>
   pc (worker_step (repeater iv eii f e)) = AtWait \<and>
   calls (worker_step (repeater iv eii f e)) = 0 \<and>
   calls (exec as (repeater iv eii f e)) \<le> wakes (exec as (repeater iv eii f e))"
proof -
  have "calls (exec as (repeater iv eii f e)) \<le> wakes (exec as (repeater iv eii f e))"
    using exec_potential [of as "repeater iv eii f e"]
    by (simp add: repeater_def pending_def)
  then show ?thesis
    by (simp add: worker_step_def) (simp add: repeater_def)
qed

theorem construction_initial_state_witness:
  "is_running_ptr (repeater (- 5) True Suc (0::nat)) \<and>
   \<not> is_interrupted_ptr (repeater (- 5) True Suc (0::nat)) \<and>
   pc (worker_step (repeater (- 5) True Suc (0::nat))) = AtWait \<and>
   calls (exec [Worker, Worker, Worker, Worker] (repeater (- 5) True Suc (0::nat))) = 1 \<and>
   wakes (exec [Worker, Worker, Worker, Worker] (repeater (- 5) True Suc (0::nat))) = 1"
proof -
  have "calls (exec [Worker, Worker, Worker, Worker] (repeater (- 5) True Suc (0::nat))) = 1"
    by (simp add: eval_defs)
  with construction_initial_state [of "- 5" True Suc "0::nat" "[Worker, Worker, Worker, Worker]"]
  show ?thesis by (simp add: eval_defs)
qed

subsection \<open>At most one invocation per iteration\<close>

text \<open>
  Claim C9.  In a stretch of an execution that starts outside the part of an
  iteration between the wake and the decision, and in which \<^verbatim>\<open>wait_for\<close>
  returns at most once, the callback is invoked at most once, whatever the
  flags, the policy and the calls of the owning thread.
\<close>

theorem callback_at_most_once_per_cycle:
  assumes "pending w = 0" and "wakes (exec as w) \<le> Suc (wakes w)"
  shows "calls (exec as w) \<le> Suc (calls w)"
  using exec_potential [of as w] assms by simp

theorem callback_at_most_once_per_cycle_witness:
  "pending (repeater 0 True Suc (0::nat)) = 0 \<and>
   wakes (exec [Worker, Interrupt, Worker, Interrupt, Worker, Worker, Interrupt, Worker, Worker]
     (repeater 0 True Suc (0::nat))) \<le> Suc (wakes (repeater 0 True Suc (0::nat))) \<and>
   calls (exec [Worker, Interrupt, Worker, Interrupt, Worker, Worker, Interrupt, Worker, Worker]
     (repeater 0 True Suc (0::nat))) \<le> Suc (calls (repeater 0 True Suc (0::nat)))"
proof -
  let ?w = "repeater 0 True Suc (0::nat)"
  let ?as = "[Worker, Interrupt, Worker, Interrupt, Worker, Worker, Interrupt, Worker, Worker]"
  have h1: "pending ?w = 0" by (simp add: pending_def repeater_def)
  have h2: "wakes (exec ?as ?w) \<le> Suc (wakes ?w)" by (simp add: eval_defs)
  from callback_at_most_once_per_cycle [OF h1 h2] h1 h2 show ?thesis by blast
qed

subsection \<open>What interrupt leaves alone\<close>

lemma returned_perform:
  "pc w = Returned \<Longrightarrow>
     pc (perform a w) = Returned \<and> calls (perform a w) = calls w \<and> env (perform a w) = env w"
  by (cases a) (simp_all add: worker_step_def owner_defs)

lemma returned_exec:
  "pc w = Returned \<Longrightarrow>
     pc (exec as w) = Returned \<and> calls (exec as w) = calls w \<and> env (exec as w) = env w"
proof (induction as arbitrary: w)
  case Nil
  then show ?case by simp
next
  case (Cons a as)
  from returned_perform [OF Cons.prems, of a] Cons.IH [of "perform a w"]
  show ?case by simp
qed

text \<open>
  Claim C10.  \<^verbatim>\<open>interrupt()\<close> leaves the running flag, the interval, the policy
  flag and the callback as they are; the state after it differs from the state
  before it at most in the interrupt flag and the count of notifications.
  After \<^verbatim>\<open>stop()\<close> it leaves the running flag false, and the flag stays false
  in every execution that follows; a worker that has returned stays returned,
  with no further callback invocation.
\<close>

theorem interrupt_frame:
  "is_running_ptr (interrupt w) = is_running_ptr w \<and> interval (interrupt w) = interval w \<and>
   execute_if_interrupted (interrupt w) = execute_if_interrupted w \<and> fn (interrupt w) = fn w \<and>
   (interrupt w)\<lparr> is_interrupted_ptr := b, cv_ptr := n \<rparr> = w\<lparr> is_interrupted_ptr := b, cv_ptr := n \<rparr> \<and>
   \<not> is_running_ptr (interrupt (stop w)) \<and>
   (\<not> is_running_ptr w \<longrightarrow> \<not> is_running_ptr (exec as (interrupt w))) \<and>
   (pc w = Returned \<longrightarrow>
      pc (exec as (interrupt w)) = Returned \<and> calls (exec as (interrupt w)) = calls w)"
proof -
  have "pc w = Returned \<Longrightarrow>
      pc (exec as (interrupt w)) = Returned \<and> calls (exec as (interrupt w)) = calls w"
    using returned_exec [of "interrupt w" as] by (simp add: interrupt_def)
  moreover have "\<not> is_running_ptr w \<Longrightarrow> \<not> is_running_ptr (exec as (interrupt w))"
    using exec_running [of "interrupt w" as] by (simp add: interrupt_def)
  ultimately show ?thesis
    by (auto simp add: interrupt_def stop_def)
qed

theorem interrupt_frame_witness:
  "pc (exec [Stop, Worker] (repeater 1000 True Suc (0::nat))) = Returned \<and>
   \<not> is_running_ptr (exec [Stop, Worker] (repeater 1000 True Suc (0::nat))) \<and>
   pc (exec [Worker, Elapse 5000, Worker, Worker, Worker]
     (interrupt (exec [Stop, Worker] (repeater 1000 True Suc (0::nat))))) = Returned \<and>
   calls (exec [Worker, Elapse 5000, Worker, Worker, Worker]
     (interrupt (exec [Stop, Worker] (repeater 1000 True Suc (0::nat))))) = 0 \<and>
   \<not> is_running_ptr (exec [Worker, Elapse 5000, Worker, Worker, Worker]
     (interrupt (exec [Stop, Worker] (repeater 1000 True Suc (0::nat)))))"
proof -
  let ?w = "exec [Stop, Worker] (repeater 1000 True Suc (0::nat))"
  have h1: "pc ?w = Returned" by (simp add: eval_defs)
  have h2: "\<not> is_running_ptr ?w" by (simp add: eval_defs)
  have c: "calls ?w = 0" by (simp add: eval_defs)
  from interrupt_frame [of ?w _ _ "[Worker, Elapse 5000, Worker, Worker, Worker]"] h1 h2 c
  show ?thesis by simp
qed

end
